theory Spec2Isabelle
  imports Main "HOL-Library.Sublist"
begin

section \<open>The asynchronous handler chain of restinio (async_chain/common.hpp)\<close>

subsection \<open>Data model\<close>

text \<open>
  \<^verbatim>\<open>enum class schedule_result_t { ok, failure }\<close>: what an async handler returns.
\<close>

datatype schedule_result_t = ok | failure

text \<open>
  Modelled from the spec: the response status vocabulary of restinio
  (\<^verbatim>\<open>status_not_found()\<close>, \<^verbatim>\<open>status_internal_server_error()\<close>) is declared outside
  common.hpp. The driver needs the two well-known values; every other status line a
  collaborator could send is \<open>status_other\<close>.
\<close>

datatype http_status_line_t =
    status_not_found
  | status_internal_server_error
  | status_other nat

text \<open>
  The calls the driver makes on its collaborators, in the order it makes them:
  \<^verbatim>\<open>controller->on_next()\<close>, \<^verbatim>\<open>m_controller->request_handle()\<close> (with the handle read),
  \<^verbatim>\<open>handler( std::move(m_controller) )\<close> and
  \<^verbatim>\<open>req->create_response( status ).done()\<close>.
\<close>

datatype 'h call =
    Call_on_next
  | Call_request_handle 'h
  | Call_handler
  | Call_create_response_done 'h http_status_line_t

text \<open>
  The world outside the driver: the calls made so far, and whatever state the handlers
  keep for themselves.
\<close>

record ('h, 'u) world =
  calls :: "'h call list"
  user :: 'u

definition record_call :: "'h call \<Rightarrow> ('h, 'u) world \<Rightarrow> ('h, 'u) world" where
  "record_call c w = w\<lparr>calls := calls w @ [c]\<rparr>"

text \<open>
  \<^verbatim>\<open>unique_async_handling_controller_t\<close> is a \<^verbatim>\<open>std::unique_ptr\<close>: \<open>None\<close> is the null
  (moved-from) pointer, \<open>Some c\<close> owns a controller whose state is \<open>c\<close>.

  \<^verbatim>\<open>generic_async_request_handler_t\<close> is a
  \<^verbatim>\<open>std::function< schedule_result_t(unique_async_handling_controller_t) >\<close>. It takes the
  pointer by value, acts on the world, and returns the schedule result; \<open>None\<close> is a
  handler that does not return normally (it throws, or has undefined behaviour).
\<close>

type_synonym ('c, 'h, 'u) generic_async_request_handler_t =
  "'c option \<Rightarrow> ('h, 'u) world \<Rightarrow> (schedule_result_t \<times> ('h, 'u) world) option"

text \<open>
  \<^verbatim>\<open>on_next_result_t = std::variant< generic_async_request_handler_t, no_more_handlers_t >\<close>.
\<close>

datatype ('c, 'h, 'u) on_next_result_t =
    handler "('c, 'h, 'u) generic_async_request_handler_t"
  | no_more_handlers_t

text \<open>
  \<^verbatim>\<open>class async_handling_controller_t\<close> is abstract: its two pure virtual methods are the
  fields of this record, acting on the state \<open>'c\<close> of the concrete controller.
  \<^verbatim>\<open>request_handle() const noexcept\<close> reads; \<^verbatim>\<open>on_next()\<close> is neither const nor noexcept,
  so it returns the new state of the controller and of the world, or \<open>None\<close> when it
  does not return normally.
\<close>

record ('c, 'h, 'u) async_handling_controller_t =
  request_handle :: "'c \<Rightarrow> 'h"
  on_next :: "'c \<Rightarrow> ('h, 'u) world \<Rightarrow>
    (('c, 'h, 'u) on_next_result_t \<times> 'c \<times> ('h, 'u) world) option"

subsection \<open>The driver\<close>

text \<open>
  Modelled from the spec: \<^verbatim>\<open>create_response( status ).done()\<close> belongs to the request
  handle, declared outside common.hpp. It sends a terminal response with that status
  against the handle.
\<close>

definition create_response_done ::
  "'h \<Rightarrow> http_status_line_t \<Rightarrow> ('h, 'u) world \<Rightarrow> ('h, 'u) world" where
  "create_response_done req status w = record_call (Call_create_response_done req status) w"

definition make_not_implemented_response :: "'h \<Rightarrow> ('h, 'u) world \<Rightarrow> ('h, 'u) world" where
  "make_not_implemented_response req w = create_response_done req status_not_found w"

definition make_internal_server_error_response ::
  "'h \<Rightarrow> ('h, 'u) world \<Rightarrow> ('h, 'u) world" where
  "make_internal_server_error_response req w =
     create_response_done req status_internal_server_error w"

text \<open>
  \<^verbatim>\<open>impl::on_next_result_visitor_t\<close> holds a reference \<^verbatim>\<open>m_controller\<close> to the pointer of
  \<^verbatim>\<open>next\<close>, so the visitor takes the pointer and returns it as it leaves it. Dereferencing
  a null pointer is undefined behaviour: \<open>None\<close>.
\<close>

definition on_next_result_visitor_t ::
  "('c, 'h, 'u) async_handling_controller_t \<Rightarrow> ('c, 'h, 'u) on_next_result_t \<Rightarrow>
   'c option \<Rightarrow> ('h, 'u) world \<Rightarrow> ('c option \<times> ('h, 'u) world) option" where
  "on_next_result_visitor_t ops r m_controller w =
     (case r of
        handler h \<Rightarrow>
          (case m_controller of
             None \<Rightarrow> None
           | Some c \<Rightarrow>
               let req = request_handle ops c;
                   w1 = record_call (Call_request_handle req) w
               in (case h (Some c) (record_call Call_handler w1) of
                     None \<Rightarrow> None
                   | Some (schedule_result, w2) \<Rightarrow>
                       (case schedule_result of
                          ok \<Rightarrow> Some (None, w2)
                        | failure \<Rightarrow> Some (None, make_internal_server_error_response req w2))))
      | no_more_handlers_t \<Rightarrow>
          (case m_controller of
             None \<Rightarrow> None
           | Some c \<Rightarrow>
               let req = request_handle ops c;
                   w1 = record_call (Call_request_handle req) w
               in Some (Some c, make_not_implemented_response req w1)))"

text \<open>
  \<^verbatim>\<open>next( controller )\<close>: ask the controller what is next and visit the answer. The
  pointer is a by-value parameter, so what is left of it dies with the call.
\<close>

definition async_chain_next ::
  "('c, 'h, 'u) async_handling_controller_t \<Rightarrow> 'c option \<Rightarrow> ('h, 'u) world \<Rightarrow>
   ('h, 'u) world option" where
  "async_chain_next ops controller w =
     (case controller of
        None \<Rightarrow> None
      | Some c \<Rightarrow>
          (case on_next ops c (record_call Call_on_next w) of
             None \<Rightarrow> None
           | Some (r, c', w1) \<Rightarrow>
               map_option snd (on_next_result_visitor_t ops r (Some c') w1)))"

subsection \<open>A chain of handlers\<close>

text \<open>
  Modelled from the spec: the concrete chains (a fixed-size and a growable sequence of
  handlers) and their controllers are not part of common.hpp. The spec gives the
  controller as a request handle and a position in the ordered handler sequence;
  \<^verbatim>\<open>on_next()\<close> advances the position by exactly one step and returns the handler at
  the old position, or the exhaustion marker when the position has passed the end.
\<close>

record 'h chain_controller_t =
  m_request :: 'h
  m_current :: nat

text \<open>
  Modelled from the spec: the handlers of its scenarios. A handler either returns its
  schedule result at once (it has scheduled the processing, or failed to), or passes
  the request through: it re-enters the driver synchronously with the controller it was
  given and returns its schedule result afterwards. Each handler notes its index in the
  chain when it is invoked, in the \<open>user\<close> part of the world.
\<close>

datatype handler_behaviour =
    Returns schedule_result_t
  | Passes_through schedule_result_t

definition chain_handler ::
  "('h chain_controller_t option \<Rightarrow> ('h, nat list) world \<Rightarrow> ('h, nat list) world option) \<Rightarrow>
   nat \<Rightarrow> handler_behaviour \<Rightarrow>
   ('h chain_controller_t, 'h, nat list) generic_async_request_handler_t" where
  "chain_handler driver i b controller w =
     (let w' = w\<lparr>user := user w @ [i]\<rparr>
      in case b of
           Returns r \<Rightarrow> Some (r, w')
         | Passes_through r \<Rightarrow>
             (case driver controller w' of
                None \<Rightarrow> None
              | Some w'' \<Rightarrow> Some (r, w'')))"

definition chain_controller ::
  "('h chain_controller_t option \<Rightarrow> ('h, nat list) world \<Rightarrow> ('h, nat list) world option) \<Rightarrow>
   handler_behaviour list \<Rightarrow>
   ('h chain_controller_t, 'h, nat list) async_handling_controller_t" where
  "chain_controller driver handlers =
     \<lparr> request_handle = m_request,
       on_next = (\<lambda>c w.
         let index_to_use = m_current c;
             c' = c\<lparr>m_current := index_to_use + 1\<rparr>
         in if index_to_use \<ge> length handlers
            then Some (no_more_handlers_t, c', w)
            else Some (handler (chain_handler driver index_to_use (handlers ! index_to_use)),
                       c', w)) \<rparr>"

text \<open>
  The driver over such a chain. A handler that passes through calls the driver again, so
  the driver a handler sees is the one of the level below; \<open>fuel\<close> bounds the depth of
  this re-entrance, and running out of it is \<open>None\<close>. A chain of \<open>N\<close> handlers nests at
  most \<open>N + 1\<close> invocations of the driver.
\<close>

primrec chain_next ::
  "nat \<Rightarrow> handler_behaviour list \<Rightarrow> 'h chain_controller_t option \<Rightarrow>
   ('h, nat list) world \<Rightarrow> ('h, nat list) world option" where
  "chain_next 0 handlers = (\<lambda>controller w. None)"
| "chain_next (Suc fuel) handlers =
     async_chain_next (chain_controller (chain_next fuel handlers) handlers)"

text \<open>
  Modelled from the spec: the chain builds a controller at position 0 for the request
  and calls the driver.
\<close>

definition chain_traverse ::
  "handler_behaviour list \<Rightarrow> 'h \<Rightarrow> ('h, nat list) world \<Rightarrow> ('h, nat list) world option" where
  "chain_traverse handlers req w =
     chain_next (Suc (length handlers)) handlers
       (Some \<lparr>m_request = req, m_current = 0\<rparr>) w"

text \<open>
  Modelled from the spec: deferred resumption. A handler that returns at once has been
  given the controller by move and keeps it; the processing it has scheduled may later
  call the driver again with that controller, which is positioned at the next step.
  When an invocation of the driver at position \<open>k\<close> is over, the controller is with the
  first handler from \<open>k\<close> on that did not pass the request through, if there is one
  (otherwise the chain was exhausted and the controller is gone).
\<close>

function holder :: "handler_behaviour list \<Rightarrow> nat \<Rightarrow> nat option" where
  "holder handlers k =
     (if k \<ge> length handlers then None
      else case handlers ! k of
             Returns r \<Rightarrow> Some k
           | Passes_through r \<Rightarrow> holder handlers (Suc k))"
  by pat_completeness auto
termination
  by (relation "measure (\<lambda>(handlers, k). length handlers - k)") auto

text \<open>
  Modelled from the spec: a whole traversal of the chain for one request, from position
  \<open>k\<close> on. The driver is invoked; when it has returned and \<open>resumes i\<close> says that the
  processing scheduled by the handler \<open>i\<close> that keeps the controller resumes the
  chain, the driver is invoked again with that controller, and so on.
\<close>

function chain_traversal ::
  "handler_behaviour list \<Rightarrow> (nat \<Rightarrow> bool) \<Rightarrow> 'h \<Rightarrow> nat \<Rightarrow> ('h, nat list) world \<Rightarrow>
   ('h, nat list) world option" where
  "chain_traversal handlers resumes req k w =
     (case chain_next (Suc (length handlers)) handlers
             (Some \<lparr>m_request = req, m_current = k\<rparr>) w of
        None \<Rightarrow> None
      | Some w' \<Rightarrow>
          (case holder handlers k of
             None \<Rightarrow> Some w'
           | Some i \<Rightarrow>
               if resumes i
               then chain_traversal handlers resumes req (Suc i) w'
               else Some w'))"
  by pat_completeness auto
termination
proof (relation "measure (\<lambda>(handlers, resumes, req, k, w). length handlers - k)")
  show "wf (measure (\<lambda>(handlers, resumes, req, k, w). length handlers - k))"
    by simp
next
  fix handlers :: "handler_behaviour list" and resumes :: "nat \<Rightarrow> bool" and req :: 'h
    and k :: nat and w w' :: "('h, nat list) world" and i :: nat
  assume h: "holder handlers k = Some i"
  have "holder handlers k = Some i \<Longrightarrow> k \<le> i \<and> i < length handlers"
  proof (induction handlers k rule: holder.induct)
    case (1 handlers k)
    then show ?case
      by (cases "handlers ! k") (auto split: if_splits)
  qed
  from this [OF h] show "((handlers, resumes, req, Suc i, w'), (handlers, resumes, req, k, w))
      \<in> measure (\<lambda>(handlers, resumes, req, k, w). length handlers - k)"
    by auto
qed

declare holder.simps [simp del] chain_traversal.simps [simp del]

text \<open>The responses among a sequence of calls, in order.\<close>

fun responses :: "'h call list \<Rightarrow> ('h \<times> http_status_line_t) list" where
  "responses [] = []"
| "responses (Call_create_response_done req status # cs) = (req, status) # responses cs"
| "responses (c # cs) = responses cs"

section \<open>The book parser of the sample application (sample/express_router/main.cpp)\<close>

record book_t =
  m_author :: string
  m_title :: string

text \<open>
  What \<^verbatim>\<open>deserialize\<close> throws: a \<^verbatim>\<open>std::runtime_error\<close> with one of its six messages
  ("no 'author:' tag", "no value separator #1", "no author name", "no 'title:' tag",
  "no title", "additional data found"), or the \<^verbatim>\<open>std::out_of_range\<close> of
  \<^verbatim>\<open>std::string_view::substr\<close>.
\<close>

datatype parse_error =
    No_author_tag
  | No_value_separator_1
  | No_author_name
  | No_title_tag
  | No_title
  | Additional_data_found
  | Out_of_range

text \<open>
  \<^verbatim>\<open>std::string_view::substr( pos, count )\<close> throws when \<open>pos\<close> is beyond the size and
  otherwise returns at most \<open>count\<close> characters from \<open>pos\<close>; \<open>substr_from\<close> is the call
  with the default \<open>count = npos\<close>.
\<close>

definition substr :: "string \<Rightarrow> nat \<Rightarrow> nat \<Rightarrow> parse_error + string" where
  "substr sv pos count =
     (if pos > length sv then Inl Out_of_range else Inr (take count (drop pos sv)))"

definition substr_from :: "string \<Rightarrow> nat \<Rightarrow> parse_error + string" where
  "substr_from sv pos =
     (if pos > length sv then Inl Out_of_range else Inr (drop pos sv))"

text \<open>
  \<^verbatim>\<open>std::string_view::find( v )\<close>: the first position at which \<open>v\<close> occurs, \<open>None\<close> for
  \<^verbatim>\<open>npos\<close>.
\<close>

fun sv_find :: "string \<Rightarrow> string \<Rightarrow> nat option" where
  "sv_find [] v = (if v = [] then Some 0 else None)"
| "sv_find (c # cs) v =
     (if prefix v (c # cs) then Some 0 else map_option Suc (sv_find cs v))"

definition author_tag :: string where
  "author_tag = ''author:''"

definition title_tag :: string where
  "title_tag = ''title:''"

definition separator :: string where
  "separator = '';;;''"

definition bind_err :: "parse_error + 'a \<Rightarrow> ('a \<Rightarrow> parse_error + 'b) \<Rightarrow> parse_error + 'b" where
  "bind_err x f = (case x of Inl e \<Rightarrow> Inl e | Inr v \<Rightarrow> f v)"

definition deserialize :: "string \<Rightarrow> parse_error + book_t" where
  "deserialize body =
     bind_err (substr body 0 (length author_tag)) (\<lambda>tag1.
     if author_tag \<noteq> tag1 then Inl No_author_tag
     else bind_err (substr_from body (length author_tag)) (\<lambda>body1.
     case sv_find body1 separator of
       None \<Rightarrow> Inl No_value_separator_1
     | Some n \<Rightarrow>
         if 0 = n then Inl No_author_name
         else bind_err (substr body1 0 n) (\<lambda>author.
              bind_err (substr_from body1 (n + length separator)) (\<lambda>body2.
              bind_err (substr body2 0 (length title_tag)) (\<lambda>tag2.
              if title_tag \<noteq> tag2 then Inl No_title_tag
              else bind_err (substr_from body2 (length title_tag)) (\<lambda>body3.
              if body3 = [] then Inl No_title
              else
                case sv_find body3 separator of
                  None \<Rightarrow> Inr \<lparr>m_author = author, m_title = body3\<rparr>
                | Some k \<Rightarrow>
                    if 0 = k then Inl No_title
                    else bind_err (substr body3 0 k) (\<lambda>title.
                         bind_err (substr_from body3 (k + length separator)) (\<lambda>body4.
                         if body4 \<noteq> [] then Inl Additional_data_found
                         else Inr \<lparr>m_author = author, m_title = title\<rparr>))))))))"

section \<open>Properties of the driver\<close>

subsection \<open>One invocation of the driver\<close>

text \<open>What each branch of the visitor does, with the calls written out.\<close>

lemma visitor_handler:
  "on_next_result_visitor_t ops (handler h) (Some c) w =
     (case h (Some c)
            (w\<lparr>calls := calls w @ [Call_request_handle (request_handle ops c), Call_handler]\<rparr>) of
        None \<Rightarrow> None
      | Some (r, w2) \<Rightarrow>
          Some (None,
            case r of
              ok \<Rightarrow> w2
            | failure \<Rightarrow>
                w2\<lparr>calls := calls w2 @
                  [Call_create_response_done (request_handle ops c)
                     status_internal_server_error]\<rparr>))"
  by (simp add: on_next_result_visitor_t_def record_call_def
      make_internal_server_error_response_def create_response_done_def Let_def
      split: option.split schedule_result_t.split)

lemma visitor_exhausted:
  "on_next_result_visitor_t ops no_more_handlers_t (Some c) w =
     Some (Some c,
       w\<lparr>calls := calls w @
         [Call_request_handle (request_handle ops c),
          Call_create_response_done (request_handle ops c) status_not_found]\<rparr>)"
  by (simp add: on_next_result_visitor_t_def record_call_def
      make_not_implemented_response_def create_response_done_def Let_def)

lemma next_Some:
  "on_next ops c (w\<lparr>calls := calls w @ [Call_on_next]\<rparr>) = Some (r, c', w1) \<Longrightarrow>
   async_chain_next ops (Some c) w = map_option snd (on_next_result_visitor_t ops r (Some c') w1)"
  by (simp add: async_chain_next_def record_call_def)

text \<open>
  One invocation as a whole. \<open>w_last\<close> is the world as the last collaborator the driver
  called has left it: the handler in the handler branch, \<^verbatim>\<open>on_next()\<close> in the exhausted
  one. What the driver adds after that is its own.
\<close>

lemma driver_step:
  assumes "on_next ops c (w\<lparr>calls := calls w @ [Call_on_next]\<rparr>) = Some (r, c', w1)"
    and "case r of
           handler h \<Rightarrow>
             h (Some c')
               (w1\<lparr>calls := calls w1 @
                  [Call_request_handle (request_handle ops c'), Call_handler]\<rparr>)
             = Some (sr, w_last)
         | no_more_handlers_t \<Rightarrow> w_last = w1"
  shows "async_chain_next ops (Some c) w =
         Some (w_last\<lparr>calls := calls w_last @
           (case r of
              handler h \<Rightarrow>
                (case sr of
                   ok \<Rightarrow> []
                 | failure \<Rightarrow>
                     [Call_create_response_done (request_handle ops c')
                        status_internal_server_error])
            | no_more_handlers_t \<Rightarrow>
                [Call_request_handle (request_handle ops c'),
                 Call_create_response_done (request_handle ops c') status_not_found])\<rparr>)"
proof (cases r)
  case (handler h)
  with assms show ?thesis
    by (cases sr) (simp_all add: next_Some visitor_handler)
next
  case no_more_handlers_t
  with assms show ?thesis
    by (simp add: next_Some visitor_exhausted)
qed

subsection \<open>The driver over a chain\<close>

lemma chain_on_next:
  "on_next (chain_controller driver handlers) c w =
     Some (if m_current c \<ge> length handlers then no_more_handlers_t
           else handler (chain_handler driver (m_current c) (handlers ! m_current c)),
           c\<lparr>m_current := Suc (m_current c)\<rparr>, w)"
  by (simp add: chain_controller_def Let_def)

lemma chain_request_handle:
  "request_handle (chain_controller driver handlers) c = m_request c"
  by (simp add: chain_controller_def)

lemma responses_append: "responses (xs @ ys) = responses xs @ responses ys"
  by (induction xs rule: responses.induct) simp_all

lemma chain_next_Suc:
  "chain_next (Suc fuel) hs (Some c) w =
     (if m_current c \<ge> length hs
      then Some (w\<lparr>calls := calls w @
             [Call_on_next, Call_request_handle (m_request c),
              Call_create_response_done (m_request c) status_not_found]\<rparr>)
      else
        let w1 = w\<lparr>calls := calls w @
                   [Call_on_next, Call_request_handle (m_request c), Call_handler],
                   user := user w @ [m_current c]\<rparr>;
            fin = (\<lambda>r w2. case r of
                     ok \<Rightarrow> w2
                   | failure \<Rightarrow> w2\<lparr>calls := calls w2 @
                       [Call_create_response_done (m_request c)
                          status_internal_server_error]\<rparr>)
        in case hs ! m_current c of
             Returns r \<Rightarrow> Some (fin r w1)
           | Passes_through r \<Rightarrow>
               map_option (fin r)
                 (chain_next fuel hs (Some (c\<lparr>m_current := Suc (m_current c)\<rparr>)) w1))"
  by (simp add: next_Some [OF chain_on_next] visitor_handler visitor_exhausted
      chain_request_handle chain_handler_def Let_def
      split: handler_behaviour.split option.split schedule_result_t.split)

text \<open>
  The fuel that \<open>chain_traverse\<close> gives is enough: a traversal always returns.
\<close>

lemma chain_next_returns:
  assumes "length hs - m_current c < fuel"
  shows "\<exists>w'. chain_next fuel hs (Some c) w = Some w'"
  using assms
proof (induction fuel arbitrary: c w)
  case 0
  then show ?case by simp
next
  case (Suc fuel)
  show ?case
  proof (cases "m_current c \<ge> length hs")
    case True
    then show ?thesis
      by (simp add: chain_next_Suc Let_def del: chain_next.simps(2))
  next
    case False
    show ?thesis
    proof (cases "hs ! m_current c")
      case (Returns r)
      with False show ?thesis
        by (simp add: chain_next_Suc Let_def del: chain_next.simps(2))
    next
      case (Passes_through r)
      let ?c = "c\<lparr>m_current := Suc (m_current c)\<rparr>"
      let ?w = "w\<lparr>calls := calls w @
                   [Call_on_next, Call_request_handle (m_request c), Call_handler],
                   user := user w @ [m_current c]\<rparr>"
      from Suc.prems False have "length hs - m_current ?c < fuel"
        by simp
      from Suc.IH [OF this] obtain w' where "chain_next fuel hs (Some ?c) ?w = Some w'"
        by blast
      with False Passes_through show ?thesis
        by (simp add: chain_next_Suc Let_def del: chain_next.simps(2))
    qed
  qed
qed

lemma chain_traverse_returns: "\<exists>w'. chain_traverse handlers req w = Some w'"
  unfolding chain_traverse_def by (rule chain_next_returns) simp

lemma passes_through_run:
  assumes "i < length hs" and "\<forall>j. k \<le> j \<and> j < i \<longrightarrow> hs ! j = Passes_through ok"
    and "hs ! i = Returns ok" and "k \<le> i" and "m_current c = k" and "i - k < fuel"
  shows "\<exists>tail. chain_next fuel hs (Some c) w =
            Some (w\<lparr>calls := calls w @ tail, user := user w @ [k..<Suc i]\<rparr>) \<and>
          responses tail = [] \<and> length (filter ((=) Call_handler) tail) = Suc i - k"
  using assms
proof (induction fuel arbitrary: k c w)
  case 0
  then show ?case by simp
next
  case (Suc fuel)
  show ?case
  proof (cases "k = i")
    case True
    with Suc.prems show ?thesis
      by (intro exI [of _ "[Call_on_next, Call_request_handle (m_request c), Call_handler]"])
         (simp add: chain_next_Suc del: chain_next.simps(2))
  next
    case False
    with Suc.prems have lt: "k < i" and pt: "hs ! k = Passes_through ok" by auto
    let ?c = "c\<lparr>m_current := Suc k\<rparr>"
    let ?w = "w\<lparr>calls := calls w @
                   [Call_on_next, Call_request_handle (m_request c), Call_handler],
                   user := user w @ [k]\<rparr>"
    from Suc.prems lt have "\<exists>tail. chain_next fuel hs (Some ?c) ?w =
            Some (?w\<lparr>calls := calls ?w @ tail, user := user ?w @ [Suc k..<Suc i]\<rparr>) \<and>
          responses tail = [] \<and> length (filter ((=) Call_handler) tail) = Suc i - Suc k"
      by (intro Suc.IH) auto
    then obtain tail where run: "chain_next fuel hs (Some ?c) ?w =
            Some (?w\<lparr>calls := calls ?w @ tail, user := user ?w @ [Suc k..<Suc i]\<rparr>)"
      and r: "responses tail = []"
      and n: "length (filter ((=) Call_handler) tail) = Suc i - Suc k"
      by blast
    have up: "[k..<Suc i] = k # [Suc k..<Suc i]"
      using lt by (simp add: upt_conv_Cons)
    show ?thesis
      apply (rule exI [of _ "[Call_on_next, Call_request_handle (m_request c), Call_handler] @ tail"])
      using Suc.prems lt pt run r n up
      by (simp add: chain_next_Suc responses_append del: chain_next.simps(2))
  qed
qed

lemma returning_pass_through_run:
  assumes "Passes_through failure \<notin> set hs" and "length hs - m_current c < fuel"
  shows "\<exists>tail us. chain_next fuel hs (Some c) w =
            Some (w\<lparr>calls := calls w @ tail, user := user w @ us\<rparr>) \<and>
          length (responses tail) \<le> 1"
  using assms
proof (induction fuel arbitrary: c w)
  case 0
  then show ?case by simp
next
  case (Suc fuel)
  show ?case
  proof (cases "m_current c \<ge> length hs")
    case True
    then show ?thesis
      by (intro exI [of _ "[Call_on_next, Call_request_handle (m_request c),
              Call_create_response_done (m_request c) status_not_found]"] exI [of _ "[]"])
          (simp add: chain_next_Suc del: chain_next.simps(2))
  next
    case False
    let ?k = "m_current c"
    let ?pre = "[Call_on_next, Call_request_handle (m_request c), Call_handler]"
    let ?w = "w\<lparr>calls := calls w @ ?pre, user := user w @ [?k]\<rparr>"
    show ?thesis
    proof (cases "hs ! ?k")
      case (Returns r)
      show ?thesis
      proof (cases r)
        case ok
        with False Returns show ?thesis
          by (intro exI [of _ ?pre] exI [of _ "[?k]"]) (simp add: chain_next_Suc del: chain_next.simps(2))
      next
        case failure
        with False Returns show ?thesis
          by (intro exI [of _ "?pre @ [Call_create_response_done (m_request c)
                          status_internal_server_error]"] exI [of _ "[?k]"])
             (simp add: chain_next_Suc del: chain_next.simps(2))
      qed
    next
      case (Passes_through r)
      from False have "hs ! ?k \<in> set hs" by simp
      with Passes_through Suc.prems(1) have r: "r = ok"
        by (cases r) auto
      let ?c = "c\<lparr>m_current := Suc ?k\<rparr>"
      from Suc.prems False have "\<exists>tail us. chain_next fuel hs (Some ?c) ?w =
            Some (?w\<lparr>calls := calls ?w @ tail, user := user ?w @ us\<rparr>) \<and>
          length (responses tail) \<le> 1"
        by (intro Suc.IH) auto
      then obtain tail us where run: "chain_next fuel hs (Some ?c) ?w =
            Some (?w\<lparr>calls := calls ?w @ tail, user := user ?w @ us\<rparr>)"
        and le: "length (responses tail) \<le> 1"
        by blast
      show ?thesis
        apply (rule exI [of _ "?pre @ tail"])
        apply (rule exI [of _ "?k # us"])
        using False Passes_through r run le
        by (simp add: chain_next_Suc responses_append del: chain_next.simps(2))
    qed
  qed
qed

subsection \<open>A traversal with deferred resumption\<close>

text \<open>
  The handler that keeps the controller returned at once, and every handler between the
  position the driver was invoked at and that handler passed the request through.
\<close>

lemma holder_Some:
  "holder hs k = Some i \<Longrightarrow>
     k \<le> i \<and> i < length hs \<and> (\<exists>r. hs ! i = Returns r) \<and>
     (\<forall>j. k \<le> j \<and> j < i \<longrightarrow> (\<exists>r. hs ! j = Passes_through r))"
proof (induction hs k rule: holder.induct)
  case (1 hs k)
  show ?case
  proof (cases "hs ! k")
    case (Returns r)
    with "1.prems" show ?thesis
      by (auto simp add: holder.simps [of hs k] split: if_splits)
  next
    case (Passes_through r)
    with "1.prems" have lt: "k < length hs" and rec: "holder hs (Suc k) = Some i"
      by (auto simp add: holder.simps [of hs k] split: if_splits)
    from "1.IH" [OF _ Passes_through rec] lt
    have ih: "Suc k \<le> i \<and> i < length hs \<and> (\<exists>r. hs ! i = Returns r) \<and>
      (\<forall>j. Suc k \<le> j \<and> j < i \<longrightarrow> (\<exists>r. hs ! j = Passes_through r))"
      by simp
    have "\<exists>r. hs ! j = Passes_through r" if "k \<le> j \<and> j < i" for j
    proof (cases "j = k")
      case True
      with Passes_through show ?thesis by simp
    next
      case False
      with that ih show ?thesis by simp
    qed
    with ih show ?thesis
      by simp
  qed
qed

text \<open>
  When the handlers keep the contract of \<^verbatim>\<open>schedule_result_t\<close>, every invocation of the
  driver but the last of a traversal ends with a handler that returned \<open>ok\<close>, so only the
  last can send a response.
\<close>

lemma traversal_responds_at_most_once:
  assumes "Passes_through failure \<notin> set hs"
    and "\<forall>i<length hs. resumes i \<longrightarrow> hs ! i = Returns ok"
  shows "\<exists>tail us. chain_traversal hs resumes req k w =
            Some (w\<lparr>calls := calls w @ tail, user := user w @ us\<rparr>) \<and>
          length (responses tail) \<le> 1"
  using assms
proof (induction hs resumes req k w rule: chain_traversal.induct)
  case (1 hs resumes req k w)
  let ?c = "\<lparr>m_request = req, m_current = k\<rparr>"
  have last_run: "\<exists>tail us. chain_next (Suc (length hs)) hs (Some ?c) w =
            Some (w\<lparr>calls := calls w @ tail, user := user w @ us\<rparr>) \<and>
          length (responses tail) \<le> 1"
    using "1.prems"(1) by (rule returning_pass_through_run) simp
  show ?case
  proof (cases "holder hs k")
    case None
    from last_run obtain tail us where
      run: "chain_next (Suc (length hs)) hs (Some ?c) w =
            Some (w\<lparr>calls := calls w @ tail, user := user w @ us\<rparr>)"
      and le: "length (responses tail) \<le> 1"
      by blast
    have "chain_traversal hs resumes req k w =
            Some (w\<lparr>calls := calls w @ tail, user := user w @ us\<rparr>)"
      by (subst chain_traversal.simps) (simp only: run None option.case)
    with le show ?thesis
      by blast
  next
    case (Some i)
    show ?thesis
    proof (cases "resumes i")
      case False
      from last_run obtain tail us where
        run: "chain_next (Suc (length hs)) hs (Some ?c) w =
              Some (w\<lparr>calls := calls w @ tail, user := user w @ us\<rparr>)"
        and le: "length (responses tail) \<le> 1"
        by blast
      have "chain_traversal hs resumes req k w =
              Some (w\<lparr>calls := calls w @ tail, user := user w @ us\<rparr>)"
        by (subst chain_traversal.simps) (simp only: run Some option.case False if_False)
      with le show ?thesis
        by blast
    next
      case True
      from holder_Some [OF Some] obtain r where ki: "k \<le> i" and il: "i < length hs"
        and ri: "hs ! i = Returns r"
        and before: "\<forall>j. k \<le> j \<and> j < i \<longrightarrow> (\<exists>r. hs ! j = Passes_through r)"
        by blast
      from "1.prems"(2) il True have acc: "hs ! i = Returns ok"
        by simp
      have pt: "\<forall>j. k \<le> j \<and> j < i \<longrightarrow> hs ! j = Passes_through ok"
      proof (intro allI impI)
        fix j
        assume j: "k \<le> j \<and> j < i"
        with before obtain r' where r': "hs ! j = Passes_through r'"
          by blast
        from j il have "hs ! j \<in> set hs"
          by simp
        with r' "1.prems"(1) have "r' = ok"
          by (cases r') auto
        with r' show "hs ! j = Passes_through ok"
          by simp
      qed
      from il ki have fuel: "i - k < Suc (length hs)"
        by simp
      have mc: "m_current ?c = k"
        by simp
      from passes_through_run [OF il pt acc ki mc fuel, of w]
      obtain tail1 where run1: "chain_next (Suc (length hs)) hs (Some ?c) w =
            Some (w\<lparr>calls := calls w @ tail1, user := user w @ [k..<Suc i]\<rparr>)"
        and r1: "responses tail1 = []"
        by blast
      let ?w1 = "w\<lparr>calls := calls w @ tail1, user := user w @ [k..<Suc i]\<rparr>"
      from "1.IH" [OF run1 Some True "1.prems"]
      obtain tail2 us2 where run2: "chain_traversal hs resumes req (Suc i) ?w1 =
            Some (?w1\<lparr>calls := calls ?w1 @ tail2, user := user ?w1 @ us2\<rparr>)"
        and r2: "length (responses tail2) \<le> 1"
        by blast
      have "chain_traversal hs resumes req k w = chain_traversal hs resumes req (Suc i) ?w1"
        by (subst chain_traversal.simps) (simp only: run1 Some option.case True if_True)
      also have "\<dots> =
            Some (w\<lparr>calls := calls w @ (tail1 @ tail2), user := user w @ ([k..<Suc i] @ us2)\<rparr>)"
        unfolding run2 by simp
      finally have "chain_traversal hs resumes req k w =
            Some (w\<lparr>calls := calls w @ (tail1 @ tail2), user := user w @ ([k..<Suc i] @ us2)\<rparr>)" .
      moreover have "length (responses (tail1 @ tail2)) \<le> 1"
        using r1 r2 by (simp add: responses_append)
      ultimately show ?thesis
        by blast
    qed
  qed
qed

text \<open>Without deferred resumption the traversal is the single call the chain makes.\<close>

lemma chain_traversal_no_resumption:
  "chain_traversal handlers (\<lambda>i. False) req 0 w = chain_traverse handlers req w"
proof (cases "holder handlers 0")
  case None
  then show ?thesis
    by (subst chain_traversal.simps)
       (simp only: chain_traverse_def option.case split: option.split, simp)
next
  case (Some i)
  then show ?thesis
    by (subst chain_traversal.simps)
       (simp only: chain_traverse_def option.case if_False split: option.split, simp)
qed

text \<open>
  The handler that keeps the controller is the last one invoked: an invocation of the
  driver at position \<open>k\<close> invokes the handlers from \<open>k\<close> up to it, or up to the end of
  the chain when every handler passes the request through.
\<close>

lemma holder_is_last_invoked:
  assumes "length hs - m_current c < fuel"
    and "chain_next fuel hs (Some c) w = Some w'"
  shows "user w' = user w @
           (case holder hs (m_current c) of
              Some i \<Rightarrow> [m_current c..<Suc i]
            | None \<Rightarrow> [m_current c..<length hs])"
  using assms
proof (induction fuel arbitrary: c w w')
  case 0
  then show ?case by simp
next
  case (Suc fuel)
  let ?k = "m_current c"
  show ?case
  proof (cases "?k \<ge> length hs")
    case True
    with Suc.prems(2) show ?thesis
      by (subst holder.simps) (auto simp add: chain_next_Suc simp del: chain_next.simps(2))
  next
    case False
    show ?thesis
    proof (cases "hs ! ?k")
      case (Returns r)
      with False Suc.prems(2) show ?thesis
        by (subst holder.simps)
           (auto simp add: chain_next_Suc Let_def simp del: chain_next.simps(2)
              split: schedule_result_t.splits)
    next
      case (Passes_through r)
      let ?c = "c\<lparr>m_current := Suc ?k\<rparr>"
      let ?w = "w\<lparr>calls := calls w @
                   [Call_on_next, Call_request_handle (m_request c), Call_handler],
                   user := user w @ [?k]\<rparr>"
      from Suc.prems False have fuel: "length hs - m_current ?c < fuel"
        by simp
      from chain_next_returns [OF fuel, of ?w] obtain w1 where
        run: "chain_next fuel hs (Some ?c) ?w = Some w1"
        by blast
      from Suc.IH [OF fuel run]
      have log1: "user w1 = user ?w @
           (case holder hs (Suc ?k) of
              Some i \<Rightarrow> [Suc ?k..<Suc i]
            | None \<Rightarrow> [Suc ?k..<length hs])"
        by (simp cong: option.case_cong)
      from Suc.prems(2) False Passes_through run have "user w' = user w1"
        by (auto simp add: chain_next_Suc Let_def simp del: chain_next.simps(2)
            split: schedule_result_t.splits)
      moreover have h: "holder hs ?k = holder hs (Suc ?k)"
        using False Passes_through by (subst holder.simps) simp
      moreover have "[?k..<Suc i] = ?k # [Suc ?k..<Suc i]" if "holder hs (Suc ?k) = Some i" for i
        using holder_Some [OF that] by (simp add: upt_conv_Cons)
      moreover have "[?k..<length hs] = ?k # [Suc ?k..<length hs]"
        using False by (simp add: upt_conv_Cons)
      ultimately show ?thesis
        using log1 by (simp split: option.split)
    qed
  qed
qed

section \<open>The claims about the driver\<close>

text \<open>
  Claim C1. When \<^verbatim>\<open>on_next()\<close> yields a handler and that handler returns \<open>failure\<close>, the
  driver sends exactly one internal-server-error response: what it adds to the world the
  handler has left is that single call and nothing else, so it invokes no further
  handler. The response is bound to the handle read from the controller \<open>c'\<close> given to
  the handler; the read is among the calls already made when the handler starts.
\<close>

theorem failure_sends_one_internal_server_error:
  assumes "on_next ops c (w\<lparr>calls := calls w @ [Call_on_next]\<rparr>) = Some (handler h, c', w1)"
    and "h (Some c')
           (w1\<lparr>calls := calls w1 @ [Call_request_handle (request_handle ops c'), Call_handler]\<rparr>)
         = Some (failure, w2)"
  shows "async_chain_next ops (Some c) w =
         Some (w2\<lparr>calls := calls w2 @
           [Call_create_response_done (request_handle ops c') status_internal_server_error]\<rparr>)"
  using assms by (simp add: next_Some visitor_handler)

text \<open>The scenario of the spec: the chain whose only handler returns \<open>failure\<close>.\<close>

theorem failure_sends_one_internal_server_error_witness:
  "on_next (chain_controller (chain_next 0 [Returns failure]) [Returns failure])
     \<lparr>m_request = 7::nat, m_current = 0\<rparr> \<lparr>calls = [Call_on_next], user = []\<rparr> =
     Some (handler (chain_handler (chain_next 0 [Returns failure]) 0 (Returns failure)),
           \<lparr>m_request = 7, m_current = 1\<rparr>, \<lparr>calls = [Call_on_next], user = []\<rparr>) \<and>
   chain_handler (chain_next 0 [Returns failure]) 0 (Returns failure)
     (Some \<lparr>m_request = 7::nat, m_current = 1\<rparr>)
     \<lparr>calls = [Call_on_next, Call_request_handle 7, Call_handler], user = []\<rparr> =
     Some (failure,
           \<lparr>calls = [Call_on_next, Call_request_handle 7, Call_handler], user = [0]\<rparr>) \<and>
   async_chain_next (chain_controller (chain_next 0 [Returns failure]) [Returns failure])
     (Some \<lparr>m_request = 7::nat, m_current = 0\<rparr>) \<lparr>calls = [], user = []\<rparr> =
     Some \<lparr>calls = [Call_on_next, Call_request_handle 7, Call_handler,
                     Call_create_response_done 7 status_internal_server_error],
           user = [0]\<rparr>"
  using failure_sends_one_internal_server_error
    [of "chain_controller (chain_next 0 [Returns failure]) [Returns failure]"
        "\<lparr>m_request = 7::nat, m_current = 0\<rparr>" "\<lparr>calls = [], user = []\<rparr>"
        "chain_handler (chain_next 0 [Returns failure]) 0 (Returns failure)"
        "\<lparr>m_request = 7, m_current = 1\<rparr>" "\<lparr>calls = [Call_on_next], user = []\<rparr>"
        "\<lparr>calls = [Call_on_next, Call_request_handle 7, Call_handler], user = [0]\<rparr>"]
  by (simp add: chain_on_next chain_request_handle chain_handler_def)

text \<open>
  Claim C2. When \<^verbatim>\<open>on_next()\<close> yields the exhaustion marker, the driver sends exactly
  one not-found response against the handle of the controller as \<^verbatim>\<open>on_next()\<close> has
  left it. For the empty chain this is all that happens: no handler is invoked.
\<close>

theorem exhausted_sends_one_not_found:
  "(on_next ops c (w\<lparr>calls := calls w @ [Call_on_next]\<rparr>) = Some (no_more_handlers_t, c', w1) \<longrightarrow>
      async_chain_next ops (Some c) w =
        Some (w1\<lparr>calls := calls w1 @
          [Call_request_handle (request_handle ops c'),
           Call_create_response_done (request_handle ops c') status_not_found]\<rparr>)) \<and>
   chain_traverse [] req v =
     Some (v\<lparr>calls := calls v @
       [Call_on_next, Call_request_handle req,
        Call_create_response_done req status_not_found]\<rparr>)"
  by (simp add: next_Some visitor_exhausted chain_traverse_def chain_on_next
      chain_request_handle)

theorem exhausted_sends_one_not_found_witness:
  "on_next (chain_controller (chain_next 0 []) [])
     \<lparr>m_request = 7::nat, m_current = 0\<rparr> \<lparr>calls = [Call_on_next], user = []\<rparr> =
     Some (no_more_handlers_t, \<lparr>m_request = 7, m_current = 1\<rparr>,
           \<lparr>calls = [Call_on_next], user = []\<rparr>) \<and>
   async_chain_next (chain_controller (chain_next 0 []) [])
     (Some \<lparr>m_request = 7::nat, m_current = 0\<rparr>) \<lparr>calls = [], user = []\<rparr> =
     Some \<lparr>calls = [Call_on_next, Call_request_handle 7,
                     Call_create_response_done 7 status_not_found],
           user = []\<rparr> \<and>
   chain_traverse [] (7::nat) \<lparr>calls = [], user = []\<rparr> =
     Some \<lparr>calls = [Call_on_next, Call_request_handle 7,
                     Call_create_response_done 7 status_not_found],
           user = []\<rparr>"
  using exhausted_sends_one_not_found
    [of "chain_controller (chain_next 0 []) []"
        "\<lparr>m_request = 7::nat, m_current = 0\<rparr>" "\<lparr>calls = [], user = []\<rparr>"
        "\<lparr>m_request = 7, m_current = 1\<rparr>" "\<lparr>calls = [Call_on_next], user = []\<rparr>"
        "7::nat" "\<lparr>calls = [], user = []\<rparr>"]
  by (simp add: chain_on_next chain_request_handle)

text \<open>
  Claim C4. When the invoked handler returns \<open>ok\<close>, the driver does nothing more: the
  world it returns is the world the handler has left, with no call added.
\<close>

theorem ok_takes_no_further_action:
  assumes "on_next ops c (w\<lparr>calls := calls w @ [Call_on_next]\<rparr>) = Some (handler h, c', w1)"
    and "h (Some c')
           (w1\<lparr>calls := calls w1 @ [Call_request_handle (request_handle ops c'), Call_handler]\<rparr>)
         = Some (ok, w2)"
  shows "async_chain_next ops (Some c) w = Some w2"
  using assms by (simp add: next_Some visitor_handler)

theorem ok_takes_no_further_action_witness:
  "on_next (chain_controller (chain_next 0 [Returns ok]) [Returns ok])
     \<lparr>m_request = 7::nat, m_current = 0\<rparr> \<lparr>calls = [Call_on_next], user = []\<rparr> =
     Some (handler (chain_handler (chain_next 0 [Returns ok]) 0 (Returns ok)),
           \<lparr>m_request = 7, m_current = 1\<rparr>, \<lparr>calls = [Call_on_next], user = []\<rparr>) \<and>
   chain_handler (chain_next 0 [Returns ok]) 0 (Returns ok)
     (Some \<lparr>m_request = 7::nat, m_current = 1\<rparr>)
     \<lparr>calls = [Call_on_next, Call_request_handle 7, Call_handler], user = []\<rparr> =
     Some (ok, \<lparr>calls = [Call_on_next, Call_request_handle 7, Call_handler], user = [0]\<rparr>) \<and>
   async_chain_next (chain_controller (chain_next 0 [Returns ok]) [Returns ok])
     (Some \<lparr>m_request = 7::nat, m_current = 0\<rparr>) \<lparr>calls = [], user = []\<rparr> =
     Some \<lparr>calls = [Call_on_next, Call_request_handle 7, Call_handler], user = [0]\<rparr>"
  using ok_takes_no_further_action
    [of "chain_controller (chain_next 0 [Returns ok]) [Returns ok]"
        "\<lparr>m_request = 7::nat, m_current = 0\<rparr>" "\<lparr>calls = [], user = []\<rparr>"
        "chain_handler (chain_next 0 [Returns ok]) 0 (Returns ok)"
        "\<lparr>m_request = 7, m_current = 1\<rparr>" "\<lparr>calls = [Call_on_next], user = []\<rparr>"
        "\<lparr>calls = [Call_on_next, Call_request_handle 7, Call_handler], user = [0]\<rparr>"]
  by (simp add: chain_on_next chain_request_handle chain_handler_def)

text \<open>
  Claim C5. In the handler branch the visitor reads the request handle from the
  controller first and invokes the handler second, giving it the controller: the handler
  starts in a world where the read and then the invocation are the last two calls. When
  the handler has returned, the pointer of the driver is null (moved from), and all the
  driver still does is send, at most, the internal-server-error response against the
  handle it had read.
\<close>

theorem handle_captured_before_handler_invoked:
  assumes "h (Some c')
             (w1\<lparr>calls := calls w1 @
                [Call_request_handle (request_handle ops c'), Call_handler]\<rparr>)
           = Some (r, w2)"
  shows "\<exists>tail. on_next_result_visitor_t ops (handler h) (Some c') w1 =
                  Some (None, w2\<lparr>calls := calls w2 @ tail\<rparr>) \<and>
           set tail \<subseteq> {Call_create_response_done (request_handle ops c')
                          status_internal_server_error}"
proof (cases r)
  case ok
  with assms show ?thesis
    by (intro exI [of _ "[]"]) (simp add: visitor_handler)
next
  case failure
  with assms show ?thesis
    by (intro exI [of _ "[Call_create_response_done (request_handle ops c')
                          status_internal_server_error]"]) (simp add: visitor_handler)
qed

theorem handle_captured_before_handler_invoked_witness:
  "chain_handler (chain_next 0 [Returns failure]) 0 (Returns failure)
     (Some \<lparr>m_request = 7::nat, m_current = 1\<rparr>)
     \<lparr>calls = [Call_on_next, Call_request_handle 7, Call_handler], user = []\<rparr> =
     Some (failure,
           \<lparr>calls = [Call_on_next, Call_request_handle 7, Call_handler], user = [0]\<rparr>) \<and>
   (\<exists>tail.
      on_next_result_visitor_t
        (chain_controller (chain_next 0 [Returns failure]) [Returns failure])
        (handler (chain_handler (chain_next 0 [Returns failure]) 0 (Returns failure)))
        (Some \<lparr>m_request = 7::nat, m_current = 1\<rparr>)
        \<lparr>calls = [Call_on_next], user = []\<rparr> =
      Some (None,
            \<lparr>calls = [Call_on_next, Call_request_handle 7, Call_handler] @ tail,
              user = [0]\<rparr>) \<and>
      set tail \<subseteq> {Call_create_response_done 7 status_internal_server_error})"
  using handle_captured_before_handler_invoked
    [of "chain_handler (chain_next 0 [Returns failure]) 0 (Returns failure)"
        "\<lparr>m_request = 7::nat, m_current = 1\<rparr>" "\<lparr>calls = [Call_on_next], user = []\<rparr>"
        "chain_controller (chain_next 0 [Returns failure]) [Returns failure]"
        failure
        "\<lparr>calls = [Call_on_next, Call_request_handle 7, Call_handler], user = [0]\<rparr>"]
  by (simp add: chain_request_handle chain_handler_def)

text \<open>
  Claim C6. The driver raises nothing of its own and sends only two responses. Whenever
  the collaborators it calls return (\<^verbatim>\<open>on_next()\<close>, and the handler with a schedule
  result), the driver returns too, and the responses among the calls it adds after the
  last of them are: none when the handler returned \<open>ok\<close>, the internal-server-error
  response when it returned \<open>failure\<close>, the not-found response when the chain is
  exhausted.
\<close>

theorem core_synthesizes_only_two_responses:
  assumes "on_next ops c (w\<lparr>calls := calls w @ [Call_on_next]\<rparr>) = Some (r, c', w1)"
    and "case r of
           handler h \<Rightarrow>
             h (Some c')
               (w1\<lparr>calls := calls w1 @
                  [Call_request_handle (request_handle ops c'), Call_handler]\<rparr>)
             = Some (sr, w_last)
         | no_more_handlers_t \<Rightarrow> w_last = w1"
  shows "\<exists>tail. async_chain_next ops (Some c) w =
                  Some (w_last\<lparr>calls := calls w_last @ tail\<rparr>) \<and>
           responses tail =
             (case r of
                handler h \<Rightarrow>
                  (case sr of
                     ok \<Rightarrow> []
                   | failure \<Rightarrow> [(request_handle ops c', status_internal_server_error)])
              | no_more_handlers_t \<Rightarrow> [(request_handle ops c', status_not_found)])"
  unfolding driver_step [OF assms]
  by (rule exI, rule conjI, rule refl)
     (simp split: on_next_result_t.split schedule_result_t.split)

theorem core_synthesizes_only_two_responses_witness:
  "on_next (chain_controller (chain_next 0 [Returns failure]) [Returns failure])
     \<lparr>m_request = 7::nat, m_current = 0\<rparr> \<lparr>calls = [Call_on_next], user = []\<rparr> =
     Some (handler (chain_handler (chain_next 0 [Returns failure]) 0 (Returns failure)),
           \<lparr>m_request = 7, m_current = 1\<rparr>, \<lparr>calls = [Call_on_next], user = []\<rparr>) \<and>
   chain_handler (chain_next 0 [Returns failure]) 0 (Returns failure)
     (Some \<lparr>m_request = 7::nat, m_current = 1\<rparr>)
     \<lparr>calls = [Call_on_next, Call_request_handle 7, Call_handler], user = []\<rparr> =
     Some (failure,
           \<lparr>calls = [Call_on_next, Call_request_handle 7, Call_handler], user = [0]\<rparr>) \<and>
   (\<exists>tail.
      async_chain_next (chain_controller (chain_next 0 [Returns failure]) [Returns failure])
        (Some \<lparr>m_request = 7::nat, m_current = 0\<rparr>) \<lparr>calls = [], user = []\<rparr> =
      Some \<lparr>calls = [Call_on_next, Call_request_handle 7, Call_handler] @ tail,
             user = [0]\<rparr> \<and>
      responses tail = [(7, status_internal_server_error)])"
  using core_synthesizes_only_two_responses
    [of "chain_controller (chain_next 0 [Returns failure]) [Returns failure]"
        "\<lparr>m_request = 7::nat, m_current = 0\<rparr>" "\<lparr>calls = [], user = []\<rparr>"
        "handler (chain_handler (chain_next 0 [Returns failure]) 0 (Returns failure))"
        "\<lparr>m_request = 7, m_current = 1\<rparr>" "\<lparr>calls = [Call_on_next], user = []\<rparr>"
        failure
        "\<lparr>calls = [Call_on_next, Call_request_handle 7, Call_handler], user = [0]\<rparr>"]
  by (simp add: chain_on_next chain_request_handle chain_handler_def)

text \<open>
  Claim C9. On the exhausted path the controller is not consumed. The driver visits the
  marker with the controller \<open>c'\<close> as \<^verbatim>\<open>on_next()\<close> has left it; the visitor reads the
  handle from it after \<^verbatim>\<open>on_next()\<close> has returned (the read follows the calls of
  \<open>w1\<close>), nothing fails, and the pointer still owns \<open>c'\<close> when the visitor is done.
\<close>

theorem exhausted_controller_still_owned:
  assumes "on_next ops c (w\<lparr>calls := calls w @ [Call_on_next]\<rparr>) =
           Some (no_more_handlers_t, c', w1)"
  shows "async_chain_next ops (Some c) w =
           map_option snd (on_next_result_visitor_t ops no_more_handlers_t (Some c') w1) \<and>
         on_next_result_visitor_t ops no_more_handlers_t (Some c') w1 =
           Some (Some c',
             w1\<lparr>calls := calls w1 @
               [Call_request_handle (request_handle ops c'),
                Call_create_response_done (request_handle ops c') status_not_found]\<rparr>)"
  using assms by (simp add: next_Some visitor_exhausted)

theorem exhausted_controller_still_owned_witness:
  "on_next (chain_controller (chain_next 0 [Returns ok]) [Returns ok])
     \<lparr>m_request = 7::nat, m_current = 1\<rparr> \<lparr>calls = [Call_on_next], user = []\<rparr> =
     Some (no_more_handlers_t, \<lparr>m_request = 7, m_current = 2\<rparr>,
           \<lparr>calls = [Call_on_next], user = []\<rparr>) \<and>
   on_next_result_visitor_t (chain_controller (chain_next 0 [Returns ok]) [Returns ok])
     no_more_handlers_t (Some \<lparr>m_request = 7::nat, m_current = 2\<rparr>)
     \<lparr>calls = [Call_on_next], user = []\<rparr> =
     Some (Some \<lparr>m_request = 7, m_current = 2\<rparr>,
           \<lparr>calls = [Call_on_next, Call_request_handle 7,
                      Call_create_response_done 7 status_not_found],
             user = []\<rparr>)"
  using exhausted_controller_still_owned
    [of "chain_controller (chain_next 0 [Returns ok]) [Returns ok]"
        "\<lparr>m_request = 7::nat, m_current = 1\<rparr>" "\<lparr>calls = [], user = []\<rparr>"
        "\<lparr>m_request = 7, m_current = 2\<rparr>" "\<lparr>calls = [Call_on_next], user = []\<rparr>"]
  by (simp add: chain_on_next chain_request_handle)

subsection \<open>A traversal of a chain\<close>

text \<open>
  Claim C3. One invocation of the driver runs one branch and sends, after the last
  collaborator has returned, no response when the handler returned \<open>ok\<close> and exactly one
  when it returned \<open>failure\<close> or when the chain is exhausted. The handlers of a chain
  keep the contract of \<^verbatim>\<open>schedule_result_t\<close>: a handler that has passed the request on,
  by re-entering the driver or through scheduled processing that resumes the chain, has
  scheduled successfully and returns \<open>ok\<close>. Over a whole traversal of such a chain,
  re-entrant and resumed invocations of the driver included, the core sends at most one
  response, hence never both the not-found and the internal-server-error response.
\<close>

theorem core_responds_at_most_once:
  "(on_next ops c (w\<lparr>calls := calls w @ [Call_on_next]\<rparr>) = Some (r, c', w1) \<and>
    (case r of
       handler h \<Rightarrow>
         h (Some c')
           (w1\<lparr>calls := calls w1 @
              [Call_request_handle (request_handle ops c'), Call_handler]\<rparr>)
         = Some (sr, w_last)
     | no_more_handlers_t \<Rightarrow> w_last = w1) \<longrightarrow>
    (\<exists>tail. async_chain_next ops (Some c) w =
              Some (w_last\<lparr>calls := calls w_last @ tail\<rparr>) \<and>
       length (responses tail) =
         (case r of
            handler h \<Rightarrow> (case sr of ok \<Rightarrow> 0 | failure \<Rightarrow> 1)
          | no_more_handlers_t \<Rightarrow> 1))) \<and>
   (Passes_through failure \<notin> set handlers \<and>
    (\<forall>i<length handlers. resumes i \<longrightarrow> handlers ! i = Returns ok) \<longrightarrow>
    (\<exists>tail us. chain_traversal handlers resumes req 0 v =
                 Some (v\<lparr>calls := calls v @ tail, user := user v @ us\<rparr>) \<and>
       length (responses tail) \<le> 1))"
proof (intro conjI impI)
  assume a: "on_next ops c (w\<lparr>calls := calls w @ [Call_on_next]\<rparr>) = Some (r, c', w1) \<and>
    (case r of
       handler h \<Rightarrow>
         h (Some c')
           (w1\<lparr>calls := calls w1 @
              [Call_request_handle (request_handle ops c'), Call_handler]\<rparr>)
         = Some (sr, w_last)
     | no_more_handlers_t \<Rightarrow> w_last = w1)"
  show "\<exists>tail. async_chain_next ops (Some c) w =
              Some (w_last\<lparr>calls := calls w_last @ tail\<rparr>) \<and>
       length (responses tail) =
         (case r of
            handler h \<Rightarrow> (case sr of ok \<Rightarrow> 0 | failure \<Rightarrow> 1)
          | no_more_handlers_t \<Rightarrow> 1)"
    unfolding driver_step [OF conjunct1 [OF a] conjunct2 [OF a]]
    by (rule exI, rule conjI, rule refl)
       (simp split: on_next_result_t.split schedule_result_t.split)
next
  assume "Passes_through failure \<notin> set handlers \<and>
    (\<forall>i<length handlers. resumes i \<longrightarrow> handlers ! i = Returns ok)"
  then show "\<exists>tail us. chain_traversal handlers resumes req 0 v =
                 Some (v\<lparr>calls := calls v @ tail, user := user v @ us\<rparr>) \<and>
       length (responses tail) \<le> 1"
    by (intro traversal_responds_at_most_once) simp_all
qed

text \<open>
  A chain whose first handler passes the request through, whose second handler schedules
  processing that later resumes the chain, and whose third handler fails to schedule:
  the invocation of the driver that reaches the third handler, and the traversal as a
  whole.
\<close>

theorem core_responds_at_most_once_witness:
  "Passes_through failure \<notin> set [Passes_through ok, Returns ok, Returns failure] \<and>
   [Passes_through ok, Returns ok, Returns failure] ! 1 = Returns ok \<and>
   on_next (chain_controller (chain_next 1 [Passes_through ok, Returns ok, Returns failure])
              [Passes_through ok, Returns ok, Returns failure])
     \<lparr>m_request = 7::nat, m_current = 2\<rparr> \<lparr>calls = [Call_on_next], user = []\<rparr> =
     Some (handler (chain_handler
                      (chain_next 1 [Passes_through ok, Returns ok, Returns failure]) 2
                      (Returns failure)),
           \<lparr>m_request = 7, m_current = 3\<rparr>, \<lparr>calls = [Call_on_next], user = []\<rparr>) \<and>
   chain_handler (chain_next 1 [Passes_through ok, Returns ok, Returns failure]) 2
     (Returns failure) (Some \<lparr>m_request = 7::nat, m_current = 3\<rparr>)
     \<lparr>calls = [Call_on_next, Call_request_handle 7, Call_handler], user = []\<rparr> =
     Some (failure,
           \<lparr>calls = [Call_on_next, Call_request_handle 7, Call_handler], user = [2]\<rparr>) \<and>
   (\<exists>tail.
      async_chain_next
        (chain_controller (chain_next 1 [Passes_through ok, Returns ok, Returns failure])
              [Passes_through ok, Returns ok, Returns failure])
        (Some \<lparr>m_request = 7::nat, m_current = 2\<rparr>) \<lparr>calls = [], user = []\<rparr> =
      Some \<lparr>calls = [Call_on_next, Call_request_handle 7, Call_handler] @ tail,
             user = [2]\<rparr> \<and>
      length (responses tail) = 1) \<and>
   (\<exists>tail us.
      chain_traversal [Passes_through ok, Returns ok, Returns failure] (\<lambda>i. i = 1) (7::nat) 0
        \<lparr>calls = [], user = []\<rparr> =
      Some \<lparr>calls = tail, user = us\<rparr> \<and>
      length (responses tail) \<le> 1) \<and>
   chain_traversal [Passes_through ok, Returns ok, Returns failure] (\<lambda>i. i = 1) (7::nat) 0
     \<lparr>calls = [], user = []\<rparr> =
     Some \<lparr>calls = [Call_on_next, Call_request_handle 7, Call_handler,
                     Call_on_next, Call_request_handle 7, Call_handler,
                     Call_on_next, Call_request_handle 7, Call_handler,
                     Call_create_response_done 7 status_internal_server_error],
           user = [0, 1, 2]\<rparr>"
proof -
  have run: "chain_traversal [Passes_through ok, Returns ok, Returns failure] (\<lambda>i. i = 1)
      (7::nat) 0 \<lparr>calls = [], user = []\<rparr> =
     Some \<lparr>calls = [Call_on_next, Call_request_handle 7, Call_handler,
                     Call_on_next, Call_request_handle 7, Call_handler,
                     Call_on_next, Call_request_handle 7, Call_handler,
                     Call_create_response_done 7 status_internal_server_error],
           user = [0, 1, 2]\<rparr>"
    by (simp add: chain_traversal.simps holder.simps chain_next_Suc numeral_2_eq_2
        del: chain_next.simps(2))
  show ?thesis
    using core_responds_at_most_once
      [of "chain_controller (chain_next 1 [Passes_through ok, Returns ok, Returns failure])
              [Passes_through ok, Returns ok, Returns failure]"
          "\<lparr>m_request = 7::nat, m_current = 2\<rparr>" "\<lparr>calls = [], user = []\<rparr>"
          "handler (chain_handler
                      (chain_next 1 [Passes_through ok, Returns ok, Returns failure]) 2
                      (Returns failure))"
          "\<lparr>m_request = 7, m_current = 3\<rparr>" "\<lparr>calls = [Call_on_next], user = []\<rparr>"
          failure
          "\<lparr>calls = [Call_on_next, Call_request_handle 7, Call_handler], user = [2]\<rparr>"
          "[Passes_through ok, Returns ok, Returns failure]" "\<lambda>i. i = 1" "7::nat"
          "\<lparr>calls = [], user = []\<rparr>"]
      run
    by (simp add: chain_on_next chain_request_handle chain_handler_def
        del: chain_next.simps(2))
qed

text \<open>
  Claim C7. The handlers keep the contract of \<^verbatim>\<open>schedule_result_t\<close>, so a handler that
  passes the request through returns \<open>ok\<close>. In a chain where handler \<open>i\<close> returns
  \<open>ok\<close> at once, the first to do so, and every handler before it passes the request
  through, the traversal invokes exactly the handlers \<open>0..i\<close>, each once and in this order (the
  driver calls a handler \<open>i + 1\<close> times), and the core sends no response.
\<close>

theorem accepting_handler_ends_traversal:
  assumes "i < length handlers"
    and "\<forall>j<i. handlers ! j = Passes_through ok"
    and "handlers ! i = Returns ok"
  shows "\<exists>tail. chain_traverse handlers req w =
                  Some (w\<lparr>calls := calls w @ tail, user := user w @ [0..<Suc i]\<rparr>) \<and>
           responses tail = [] \<and>
           length (filter ((=) Call_handler) tail) = Suc i"
proof -
  have "\<exists>tail. chain_next (Suc (length handlers)) handlers
                  (Some \<lparr>m_request = req, m_current = 0\<rparr>) w =
            Some (w\<lparr>calls := calls w @ tail, user := user w @ [0..<Suc i]\<rparr>) \<and>
          responses tail = [] \<and> length (filter ((=) Call_handler) tail) = Suc i - 0"
    using assms by (intro passes_through_run) auto
  then show ?thesis
    by (simp add: chain_traverse_def del: chain_next.simps(2))
qed

theorem accepting_handler_ends_traversal_witness:
  "1 < length [Passes_through ok, Returns ok, Returns failure] \<and>
   [Passes_through ok, Returns ok, Returns failure] ! 0 = Passes_through ok \<and>
   [Passes_through ok, Returns ok, Returns failure] ! 1 = Returns ok \<and>
   (\<exists>tail.
      chain_traverse [Passes_through ok, Returns ok, Returns failure] (7::nat)
        \<lparr>calls = [], user = []\<rparr> =
      Some \<lparr>calls = tail, user = [0, 1]\<rparr> \<and>
      responses tail = [] \<and>
      length (filter ((=) Call_handler) tail) = 2)"
proof -
  have up: "[0..<Suc 1] = [0, 1]"
    by (simp add: upt_rec)
  show ?thesis
    using accepting_handler_ends_traversal
      [of 1 "[Passes_through ok, Returns ok, Returns failure]" "7::nat"
          "\<lparr>calls = [], user = []\<rparr>"]
    by (simp add: up numeral_2_eq_2)
qed

section \<open>Properties of the book parser\<close>

subsection \<open>Searching for the separator\<close>

lemma sv_find_None: "sv_find s v = None \<longleftrightarrow> \<not> sublist v s"
  by (induction s) (auto simp: sublist_Cons_right)

lemma sv_find_Some_decomp:
  "sv_find s v = Some n \<Longrightarrow> s = take n s @ v @ drop (n + length v) s \<and> n + length v \<le> length s"
proof (induction s arbitrary: n)
  case Nil
  then show ?case by (simp split: if_splits)
next
  case (Cons c cs)
  show ?case
  proof (cases "prefix v (c # cs)")
    case True
    with Cons.prems have "n = 0" by simp
    from True obtain zs where zs: "c # cs = v @ zs"
      by (auto simp: prefix_def)
    then have "length (c # cs) = length v + length zs"
      by (metis length_append)
    with zs \<open>n = 0\<close> show ?thesis
      by simp
  next
    case False
    with Cons.prems obtain m where m: "sv_find cs v = Some m" and n: "n = Suc m"
      by auto
    from Cons.IH [OF m] n show ?thesis by simp
  qed
qed

lemma sv_find_Some_length: "sv_find s v = Some n \<Longrightarrow> n + length v \<le> length s"
  using sv_find_Some_decomp by blast

text \<open>
  The search stops at the first match, and a match may begin inside the text before the
  separator: it begins at the end of \<open>A\<close> only if \<open>A\<close> neither contains the separator
  nor ends in a semicolon.
\<close>

lemma sv_find_separator_here:
  "sv_find (A @ '';;;'' @ R) '';;;'' = Some (length A) \<longleftrightarrow>
     \<not> sublist '';;;'' A \<and> (A = [] \<or> last A \<noteq> CHR '';'')"
proof (induction A)
  case Nil
  show ?case by simp
next
  case (Cons a A)
  show ?case
  proof (cases A)
    case Nil
    then show ?thesis by (auto simp: sublist_Cons_right)
  next
    case (Cons b B)
    note AB = this
    show ?thesis
    proof (cases B)
      case Nil
      with AB Cons.IH show ?thesis by (auto simp: sublist_Cons_right)
    next
      case (Cons c C)
      with AB Cons.IH show ?thesis by (auto simp: sublist_Cons_right)
    qed
  qed
qed

lemma sv_find_separator:
  "sv_find (A @ separator @ R) separator = Some (length A) \<longleftrightarrow>
     \<not> sublist separator A \<and> (A = [] \<or> last A \<noteq> CHR '';'')"
  unfolding separator_def by (rule sv_find_separator_here)

lemma sv_find_Some_first:
  assumes "sv_find s separator = Some n"
  shows "s = take n s @ separator @ drop (n + length separator) s \<and> length (take n s) = n \<and>
         \<not> sublist separator (take n s) \<and> (0 < n \<longrightarrow> last (take n s) \<noteq> CHR '';'')"
proof -
  let ?A = "take n s" and ?R = "drop (n + length separator) s"
  from sv_find_Some_decomp [OF assms]
  have eq: "s = ?A @ separator @ ?R" and len: "length ?A = n"
    by simp_all
  from assms eq have "sv_find (?A @ separator @ ?R) separator = Some (length ?A)"
    using len by simp
  then have "\<not> sublist separator ?A \<and> (?A = [] \<or> last ?A \<noteq> CHR '';'')"
    by (rule iffD1 [OF sv_find_separator])
  with eq len show ?thesis
    by auto
qed

subsection \<open>What the parser accepts\<close>

lemma take_eq_length: "take (length t) s = t \<Longrightarrow> length t \<le> length s"
  by (metis length_take min.cobounded1 min.commute)

lemma bind_err_substr: "bind_err (substr sv 0 count) f = f (take count sv)"
  by (simp add: bind_err_def substr_def)

lemma bind_err_substr_from:
  "pos \<le> length sv \<Longrightarrow> bind_err (substr_from sv pos) f = f (drop pos sv)"
  by (simp add: bind_err_def substr_from_def)

text \<open>The checks of \<^verbatim>\<open>deserialize\<close> that a body passes when a book is returned.\<close>

lemma deserialize_Inr_iff:
  "deserialize body = Inr b \<longleftrightarrow>
     take (length author_tag) body = author_tag \<and>
     (\<exists>n. sv_find (drop (length author_tag) body) separator = Some n \<and> 0 < n \<and>
        take (length title_tag) (drop (n + length separator) (drop (length author_tag) body))
          = title_tag \<and>
        (let body1 = drop (length author_tag) body;
             body3 = drop (length title_tag) (drop (n + length separator) body1) in
           body3 \<noteq> [] \<and>
           (case sv_find body3 separator of
              None \<Rightarrow> b = \<lparr>m_author = take n body1, m_title = body3\<rparr>
            | Some k \<Rightarrow> 0 < k \<and> drop (k + length separator) body3 = [] \<and>
                b = \<lparr>m_author = take n body1, m_title = take k body3\<rparr>)))"
proof (cases "take (length author_tag) body = author_tag")
  case False
  then show ?thesis
    by (auto simp: deserialize_def bind_err_substr)
next
  case True
  then have l7: "length author_tag \<le> length body"
    by (rule take_eq_length)
  let ?body1 = "drop (length author_tag) body"
  show ?thesis
  proof (cases "sv_find ?body1 separator")
    case None
    with True l7 show ?thesis
      by (simp add: deserialize_def bind_err_substr bind_err_substr_from)
  next
    case (Some n)
    then have ln: "n + length separator \<le> length ?body1"
      by (rule sv_find_Some_length)
    let ?body2 = "drop (n + length separator) ?body1"
    show ?thesis
    proof (cases "0 < n \<and> take (length title_tag) ?body2 = title_tag")
      case False
      then have "n = 0 \<or> title_tag \<noteq> take (length title_tag) ?body2"
        by auto
      with True l7 Some ln show ?thesis
        by (auto simp add: deserialize_def bind_err_substr bind_err_substr_from
            simp del: drop_drop)
    next
      case ok: True
      then have l6: "length title_tag \<le> length ?body2"
        using take_eq_length [of title_tag ?body2] by simp
      let ?body3 = "drop (length title_tag) ?body2"
      show ?thesis
      proof (cases "sv_find ?body3 separator")
        case None
        with True l7 Some ln ok l6 show ?thesis
          by (simp add: deserialize_def bind_err_substr bind_err_substr_from Let_def
              del: drop_drop drop_eq_Nil drop_eq_Nil2) blast?
      next
        case k: (Some k)
        then have lk: "k + length separator \<le> length ?body3"
          by (rule sv_find_Some_length)
        with True l7 Some ln ok l6 k show ?thesis
          by (simp add: deserialize_def bind_err_substr bind_err_substr_from Let_def
              del: drop_drop drop_eq_Nil drop_eq_Nil2) blast?
      qed
    qed
  qed
qed

lemma deserialize_sound:
  assumes "deserialize body = Inr b"
  shows "m_author b \<noteq> [] \<and> m_title b \<noteq> [] \<and>
      \<not> sublist separator (m_author b) \<and> \<not> sublist separator (m_title b) \<and>
      last (m_author b) \<noteq> CHR '';'' \<and>
      (body = author_tag @ m_author b @ separator @ title_tag @ m_title b \<or>
       (last (m_title b) \<noteq> CHR '';'' \<and>
        body = author_tag @ m_author b @ separator @ title_tag @ m_title b @ separator))"
proof -
  let ?body1 = "drop (length author_tag) body"
  from assms obtain n where tag1: "take (length author_tag) body = author_tag"
    and n: "sv_find ?body1 separator = Some n" and n0: "0 < n"
    and tag2: "take (length title_tag) (drop (n + length separator) ?body1) = title_tag"
    and rest: "let body3 = drop (length title_tag) (drop (n + length separator) ?body1) in
           body3 \<noteq> [] \<and>
           (case sv_find body3 separator of
              None \<Rightarrow> b = \<lparr>m_author = take n ?body1, m_title = body3\<rparr>
            | Some k \<Rightarrow> 0 < k \<and> drop (k + length separator) body3 = [] \<and>
                b = \<lparr>m_author = take n ?body1, m_title = take k body3\<rparr>)"
    unfolding deserialize_Inr_iff Let_def by blast
  let ?A = "take n ?body1"
  let ?body2 = "drop (n + length separator) ?body1"
  let ?body3 = "drop (length title_tag) ?body2"
  have b0: "body = author_tag @ ?body1"
    using tag1 by (metis append_take_drop_id)
  from sv_find_Some_first [OF n] n0
  have b1: "?body1 = ?A @ separator @ ?body2" and lenA: "length ?A = n"
    and noA: "\<not> sublist separator ?A" and lastA: "last ?A \<noteq> CHR '';''"
    by simp_all
  have b2: "?body2 = title_tag @ ?body3"
    using tag2 by (metis append_take_drop_id)
  from rest have ne3: "?body3 \<noteq> []"
    by (simp add: Let_def del: drop_drop drop_eq_Nil drop_eq_Nil2)
  from lenA n0 have neA: "?A \<noteq> []"
    by auto
  have whole: "body = author_tag @ ?A @ separator @ title_tag @ ?body3"
    using b0 b1 b2 by metis
  show ?thesis
  proof (cases "sv_find ?body3 separator")
    case None
    with rest have b: "b = \<lparr>m_author = ?A, m_title = ?body3\<rparr>"
      by (simp add: Let_def del: drop_drop drop_eq_Nil drop_eq_Nil2)
    from None have "\<not> sublist separator ?body3"
      by (rule iffD1 [OF sv_find_None])
    with b neA ne3 noA lastA whole show ?thesis
      by (simp del: drop_drop drop_eq_Nil drop_eq_Nil2)
  next
    case (Some k)
    with rest have k0: "0 < k" and nil: "drop (k + length separator) ?body3 = []"
      and b: "b = \<lparr>m_author = ?A, m_title = take k ?body3\<rparr>"
      by (simp_all add: Let_def del: drop_drop drop_eq_Nil drop_eq_Nil2)
    let ?T = "take k ?body3"
    from sv_find_Some_first [OF Some] k0 nil
    have b3: "?body3 = ?T @ separator" and lenT: "length ?T = k"
      and noT: "\<not> sublist separator ?T" and lastT: "last ?T \<noteq> CHR '';''"
      by simp_all
    from lenT k0 have neT: "?T \<noteq> []"
      by auto
    have "body = author_tag @ ?A @ separator @ title_tag @ ?T @ separator"
      using whole b3 by metis
    with b neA neT noA noT lastA lastT show ?thesis
      by (simp del: drop_drop drop_eq_Nil drop_eq_Nil2)
  qed
qed

lemma deserialize_complete:
  assumes "A \<noteq> []" and "T \<noteq> []" and "\<not> sublist separator A" and "\<not> sublist separator T"
    and "last A \<noteq> CHR '';''"
  shows "deserialize (author_tag @ A @ separator @ title_tag @ T) =
           Inr \<lparr>m_author = A, m_title = T\<rparr>"
    and "last T \<noteq> CHR '';'' \<Longrightarrow>
         deserialize (author_tag @ A @ separator @ title_tag @ T @ separator) =
           Inr \<lparr>m_author = A, m_title = T\<rparr>"
proof -
  have findA: "sv_find (A @ separator @ R) separator = Some (length A)" for R
    using assms by (simp add: sv_find_separator)
  have findT: "sv_find T separator = None"
    using assms by (simp add: sv_find_None)
  show "deserialize (author_tag @ A @ separator @ title_tag @ T) =
           Inr \<lparr>m_author = A, m_title = T\<rparr>"
    unfolding deserialize_Inr_iff
    using assms findA findT by (simp add: Let_def)
  assume "last T \<noteq> CHR '';''"
  with assms have "sv_find (T @ separator @ []) separator = Some (length T)"
    by (simp only: sv_find_separator) simp
  then have findT': "sv_find (T @ separator) separator = Some (length T)"
    by simp
  show "deserialize (author_tag @ A @ separator @ title_tag @ T @ separator) =
           Inr \<lparr>m_author = A, m_title = T\<rparr>"
    unfolding deserialize_Inr_iff
    using assms findA findT' by (simp add: Let_def)
qed

text \<open>
  Claim C10, as the code has it. \<^verbatim>\<open>deserialize\<close> returns the book \<open>(A, T)\<close> exactly for
  the bodies \<open>author:\<close> \<open>A\<close> \<open>;;;\<close> \<open>title:\<close> \<open>T\<close> and, when \<open>T\<close> does not end in a
  semicolon, for these followed by one more \<open>;;;\<close>, where \<open>A\<close> and \<open>T\<close> are not empty
  and do not contain \<open>;;;\<close> and \<open>A\<close> does not end in a semicolon. Every other body
  makes it throw.
\<close>

theorem deserialize_accepts_iff:
  "deserialize body = Inr b \<longleftrightarrow>
     m_author b \<noteq> [] \<and> m_title b \<noteq> [] \<and>
     \<not> sublist separator (m_author b) \<and> \<not> sublist separator (m_title b) \<and>
     last (m_author b) \<noteq> CHR '';'' \<and>
     (body = author_tag @ m_author b @ separator @ title_tag @ m_title b \<or>
      (last (m_title b) \<noteq> CHR '';'' \<and>
       body = author_tag @ m_author b @ separator @ title_tag @ m_title b @ separator))"
proof
  assume "deserialize body = Inr b"
  then show "m_author b \<noteq> [] \<and> m_title b \<noteq> [] \<and>
     \<not> sublist separator (m_author b) \<and> \<not> sublist separator (m_title b) \<and>
     last (m_author b) \<noteq> CHR '';'' \<and>
     (body = author_tag @ m_author b @ separator @ title_tag @ m_title b \<or>
      (last (m_title b) \<noteq> CHR '';'' \<and>
       body = author_tag @ m_author b @ separator @ title_tag @ m_title b @ separator))"
    by (rule deserialize_sound)
next
  assume r: "m_author b \<noteq> [] \<and> m_title b \<noteq> [] \<and>
     \<not> sublist separator (m_author b) \<and> \<not> sublist separator (m_title b) \<and>
     last (m_author b) \<noteq> CHR '';'' \<and>
     (body = author_tag @ m_author b @ separator @ title_tag @ m_title b \<or>
      (last (m_title b) \<noteq> CHR '';'' \<and>
       body = author_tag @ m_author b @ separator @ title_tag @ m_title b @ separator))"
  have b: "\<lparr>m_author = m_author b, m_title = m_title b\<rparr> = b"
    by simp
  from r consider
      "body = author_tag @ m_author b @ separator @ title_tag @ m_title b"
    | "last (m_title b) \<noteq> CHR '';''"
      "body = author_tag @ m_author b @ separator @ title_tag @ m_title b @ separator"
    by blast
  then show "deserialize body = Inr b"
  proof cases
    case 1
    with r deserialize_complete(1) [of "m_author b" "m_title b"] b show ?thesis
      by simp
  next
    case 2
    with r deserialize_complete(2) [of "m_author b" "m_title b"] b show ?thesis
      by simp
  qed
qed

text \<open>
  A title that ends in a semicolon is accepted without the trailing separator, and a
  single trailing separator is accepted after a title that does not.
\<close>

theorem deserialize_accepts_iff_witness:
  "deserialize ''author:x;;;title:T;'' = Inr \<lparr>m_author = ''x'', m_title = ''T;''\<rparr> \<and>
   deserialize ''author:x;;;title:T;;;'' = Inr \<lparr>m_author = ''x'', m_title = ''T''\<rparr>"
  using deserialize_accepts_iff
      [of "''author:x;;;title:T;''" "\<lparr>m_author = ''x'', m_title = ''T;''\<rparr>"]
    deserialize_accepts_iff
      [of "''author:x;;;title:T;;;''" "\<lparr>m_author = ''x'', m_title = ''T''\<rparr>"]
  by (simp add: author_tag_def title_tag_def separator_def sublist_Cons_right)

text \<open>
  The author \<open>x;\<close> is not empty and does not contain \<open>;;;\<close>, yet the body built from it
  is rejected: the search finds the separator one character early, and what follows it
  is not the title tag.
\<close>

theorem deserialize_rejects_author_ending_in_semicolon:
  "''author:x;;;;title:T'' = ''author:'' @ ''x;'' @ '';;;'' @ ''title:'' @ ''T'' \<and>
   \<not> sublist '';;;'' ''x;'' \<and> \<not> sublist '';;;'' ''T'' \<and>
   deserialize ''author:x;;;;title:T'' = Inl No_title_tag"
  by (simp add: deserialize_def bind_err_def substr_def substr_from_def author_tag_def
      title_tag_def separator_def sublist_Cons_right)

end
